theory Spec2Isabelle
  imports Main "HOL-Library.Log_Nat"
begin

section \<open>Python exceptions and effectful computations\<close>

text \<open>
  The runner (\<^verbatim>\<open>agent_test.py\<close>) is modelled in a state-and-exception monad. A
  computation takes the state and returns a result together with the state it leaves
  behind; the result is \<open>Inl e\<close> when the exception \<open>e\<close> is raised and \<open>Inr v\<close> when
  the value \<open>v\<close> is returned. Effects made before a raise persist, as in Python.

  The type \<open>exn\<close> stands for instances of Python's \<^verbatim>\<open>Exception\<close> class; \<open>message\<close>
  is what \<^verbatim>\<open>str(e)\<close> returns. \<^verbatim>\<open>KeyboardInterrupt\<close> and \<^verbatim>\<open>SystemExit\<close> are not
  instances of \<^verbatim>\<open>Exception\<close> and appear only in the server model below.
\<close>

datatype exn_kind =
  AssertionError | ZeroDivisionError | IndexError | TypeError
  | OverflowError | ValueError | OSError | OtherException

datatype exn = Exn (kind: exn_kind) (message: string)

type_synonym ('s, 'a) py = "'s \<Rightarrow> (exn + 'a) \<times> 's"

definition return_py :: "'a \<Rightarrow> ('s, 'a) py" where
  "return_py v s = (Inr v, s)"

definition raise_py :: "exn \<Rightarrow> ('s, 'a) py" where
  "raise_py e s = (Inl e, s)"

definition lift_py :: "exn + 'a \<Rightarrow> ('s, 'a) py" where
  "lift_py r s = (r, s)"

definition bind_py :: "('s, 'a) py \<Rightarrow> ('a \<Rightarrow> ('s, 'b) py) \<Rightarrow> ('s, 'b) py" where
  "bind_py m f s = (case m s of (Inl e, s') \<Rightarrow> (Inl e, s') | (Inr v, s') \<Rightarrow> f v s')"

definition then_py :: "('s, 'a) py \<Rightarrow> ('s, 'b) py \<Rightarrow> ('s, 'b) py" where
  "then_py m k = bind_py m (\<lambda>_. k)"

text \<open>\<^verbatim>\<open>try: m  except Exception as e: h(e)\<close>\<close>

definition try_except :: "('s, 'a) py \<Rightarrow> (exn \<Rightarrow> ('s, 'a) py) \<Rightarrow> ('s, 'a) py" where
  "try_except m h s = (case m s of (Inl e, s') \<Rightarrow> h e s' | (Inr v, s') \<Rightarrow> (Inr v, s'))"

text \<open>\<^verbatim>\<open>try: m  except K: h\<close> for one exception class \<open>K\<close>: other exceptions propagate.\<close>

definition try_except_kind :: "exn_kind \<Rightarrow> ('s, 'a) py \<Rightarrow> ('s, 'a) py \<Rightarrow> ('s, 'a) py" where
  "try_except_kind k m h s =
     (case m s of
        (Inl e, s') \<Rightarrow> if kind e = k then h s' else (Inl e, s')
      | (Inr v, s') \<Rightarrow> (Inr v, s'))"

text \<open>\<^verbatim>\<open>assert c, msg\<close>\<close>

definition py_assert :: "bool \<Rightarrow> string \<Rightarrow> ('s, unit) py" where
  "py_assert c msg = (if c then return_py () else raise_py (Exn AssertionError msg))"

section \<open>Floating point: IEEE 754 binary64 with round-to-nearest-even\<close>

text \<open>
  A finite Python \<^verbatim>\<open>float\<close> is modelled by the rational number it denotes. Every
  arithmetic operation computes the exact result and rounds it to the nearest binary64
  number, ties to the even significand: \<open>round_double\<close>. For \<open>x \<noteq> 0\<close> with
  \<open>2^e \<le> |x| < 2^(e+1)\<close> the spacing of binary64 numbers around \<open>x\<close> is \<open>2^(e-52)\<close>,
  and \<open>2^(-1074)\<close> below the normal range.
\<close>

definition ilog2 :: "rat \<Rightarrow> int" where
  "ilog2 x = (case quotient_of x of (a, b) \<Rightarrow>
     (let e0 = bitlen a - bitlen b in if 2 powi e0 \<le> x then e0 else e0 - 1))"

definition round_half_even :: "rat \<Rightarrow> int" where
  "round_half_even q = (let f = \<lfloor>q\<rfloor>; d = q - of_int f in
     if d < 1 / 2 then f else if 1 / 2 < d then f + 1 else if even f then f else f + 1)"

definition round_double :: "rat \<Rightarrow> rat" where
  "round_double x = (if x = 0 then 0 else
     (let e = max (ilog2 \<bar>x\<bar>) (- 1022); u = 2 powi (e - 52)
      in sgn x * of_int (round_half_even (\<bar>x\<bar> / u)) * u))"

text \<open>
  \<^verbatim>\<open>a / b\<close> on Python integers: the exact quotient, correctly rounded; division by zero
  and a quotient beyond the binary64 range raise.
\<close>

definition py_truediv :: "int \<Rightarrow> int \<Rightarrow> exn + rat" where
  "py_truediv a b =
     (if b = 0 then Inl (Exn ZeroDivisionError ''division by zero'')
      else (let r = round_double (of_int a / of_int b)
            in if 2 ^ 1024 \<le> \<bar>r\<bar>
               then Inl (Exn OverflowError ''integer division result too large for a float'')
               else Inr r))"

text \<open>
  \<^verbatim>\<open>x * y\<close> on floats. The only product of the program is \<^verbatim>\<open>(passed/total)*100\<close>, at
  most 100, so overflow to infinity is not represented.
\<close>

definition float_mul :: "rat \<Rightarrow> rat \<Rightarrow> rat" where
  "float_mul x y = round_double (x * y)"

text \<open>The conversion of an integer argument to a float, as \<^verbatim>\<open>math.sqrt(n)\<close> performs it.\<close>

definition float_of_int :: "int \<Rightarrow> exn + rat" where
  "float_of_int n =
     (let r = round_double (of_int n)
      in if 2 ^ 1024 \<le> \<bar>r\<bar>
         then Inl (Exn OverflowError ''int too large to convert to float'')
         else Inr r)"

text \<open>The integer square root, by bisection between \<open>lo\<close> and \<open>hi\<close>.\<close>

function isqrt_bisect :: "int \<Rightarrow> int \<Rightarrow> int \<Rightarrow> int" where
  "isqrt_bisect n lo hi =
     (if hi \<le> lo + 1 then lo
      else (let mid = (lo + hi) div 2
            in if mid * mid \<le> n then isqrt_bisect n mid hi else isqrt_bisect n lo mid))"
  by pat_completeness auto
termination
  by (relation "measure (\<lambda>(n, lo, hi). nat (hi - lo))") auto

definition isqrt :: "int \<Rightarrow> int" where
  "isqrt n = isqrt_bisect n 0 (n + 1)"

text \<open>
  \<^verbatim>\<open>math.sqrt\<close> on a float: the correctly rounded square root (IEEE 754), a domain
  error below zero. With \<open>2^(2e) \<le> x < 2^(2e+2)\<close> the root lies in \<open>[2^e, 2^(e+1))\<close>,
  where binary64 numbers are \<open>u = 2^(e-52)\<close> apart; the significand is the integer
  nearest to \<open>sqrt (x / u^2)\<close>.
\<close>

definition sqrt_double :: "rat \<Rightarrow> rat" where
  "sqrt_double x = (if x = 0 then 0 else
     (let e = ilog2 x div 2; u = 2 powi (e - 52); y = x / (u * u);
          s = isqrt \<lfloor>y\<rfloor>; h = of_int (s * s + s) + 1 / 4;
          m = (if y < h then s else if h < y then s + 1 else if even s then s else s + 1)
      in of_int m * u))"

definition math_sqrt :: "rat \<Rightarrow> exn + rat" where
  "math_sqrt x = (if x < 0 then Inl (Exn ValueError ''math domain error'') else Inr (sqrt_double x))"

text \<open>\<^verbatim>\<open>int(x)\<close> on a finite float: truncation towards zero.\<close>

definition int_of_float :: "rat \<Rightarrow> int" where
  "int_of_float x = (if 0 \<le> x then \<lfloor>x\<rfloor> else \<lceil>x\<rceil>)"

section \<open>Rendering values in messages\<close>

function str_nat :: "nat \<Rightarrow> string" where
  "str_nat n = (if n < 10 then [''0123456789'' ! n]
                else str_nat (n div 10) @ [''0123456789'' ! (n mod 10)])"
  by pat_completeness auto
termination
  by (relation "measure (\<lambda>n. n)") auto

definition str_int :: "int \<Rightarrow> string" where
  "str_int i = (if i < 0 then CHR ''-'' # str_nat (nat (- i)) else str_nat (nat i))"

fun join_comma :: "string list \<Rightarrow> string" where
  "join_comma [] = []"
| "join_comma [x] = x"
| "join_comma (x # y # ys) = x @ '', '' @ join_comma (y # ys)"

definition repr_int_list :: "int list \<Rightarrow> string" where
  "repr_int_list xs = ''['' @ join_comma (map str_int xs) @ '']''"

text \<open>
  The \<^verbatim>\<open>repr\<close> of a non-empty set of small integers; CPython lists the elements in hash
  order, which for these values is ascending.
\<close>

definition repr_int_set :: "int set \<Rightarrow> string" where
  "repr_int_set A = (if A = {} then ''set()''
                     else ''{'' @ join_comma (map str_int (sorted_list_of_set A)) @ ''}'')"

section \<open>The data model of the runner\<close>

text \<open>
  One entry of \<^verbatim>\<open>self.test_results\<close>. The timestamp is the clock reading in
  microseconds; \<^verbatim>\<open>isoformat()\<close> renders it injectively.
\<close>

record test_result =
  test :: string
  success :: bool
  details :: string
  timestamp :: int

text \<open>The fields of \<^verbatim>\<open>AgentTester\<close>.\<close>

record agent_tester =
  test_results :: "test_result list"
  start_time :: int

text \<open>The dictionary that \<^verbatim>\<open>generate_report\<close> returns (key \<^verbatim>\<open>"total"\<close> is \<open>total_tests\<close>).\<close>

record report =
  total_tests :: int
  passed :: int
  failed :: int
  success_rate :: rat
  duration_seconds :: rat
  results :: "test_result list"

text \<open>The values the data-structures check passes through \<^verbatim>\<open>json\<close>.\<close>

datatype json_value =
  JString string
  | JList "json_value list"
  | JDict "string \<Rightarrow> json_value option"

text \<open>
  The world outside the interpreter:
  \<^item> \<open>files\<close>: the working directory, file name to content;
  \<^item> \<open>os_faults\<close>, \<open>os_calls\<close>: the \<open>k\<close>-th operating-system call of the run fails with
    an \<^verbatim>\<open>OSError\<close> of the given message when \<open>os_faults k\<close> is \<open>Some\<close> (read-only
    directory, full disk, ...), and takes effect otherwise;
  \<^item> \<open>clock\<close>, \<open>clock_reads\<close>: the \<open>k\<close>-th call of \<^verbatim>\<open>datetime.now()\<close> reads \<open>clock k\<close>;
  \<^item> \<open>json_dumps\<close>, \<open>json_loads\<close>, \<open>json_dump_report\<close>: the standard library's \<^verbatim>\<open>json\<close>
    module, which is not part of the repository.
  Console output is not modelled.
\<close>

record world =
  files :: "string \<Rightarrow> string option"
  os_faults :: "nat \<Rightarrow> string option"
  os_calls :: nat
  clock :: "nat \<Rightarrow> int"
  clock_reads :: nat
  json_dumps :: "json_value \<Rightarrow> exn + string"
  json_loads :: "string \<Rightarrow> exn + json_value"
  json_dump_report :: "report \<Rightarrow> exn + string"

record state =
  tester :: agent_tester
  world :: world

section \<open>Operating-system primitives\<close>

definition datetime_now :: "(state, int) py" where
  "datetime_now s =
     (let w = world s
      in (Inr (clock w (clock_reads w)), s\<lparr>world := w\<lparr>clock_reads := clock_reads w + 1\<rparr>\<rparr>))"

text \<open>One operating-system call: it consumes the next entry of the fault schedule.\<close>

definition os_call :: "(state, unit) py" where
  "os_call s =
     (let w = world s; s' = s\<lparr>world := w\<lparr>os_calls := os_calls w + 1\<rparr>\<rparr>
      in case os_faults w (os_calls w) of
           None \<Rightarrow> (Inr (), s')
         | Some msg \<Rightarrow> (Inl (Exn OSError msg), s'))"

definition set_file :: "string \<Rightarrow> string option \<Rightarrow> (state, unit) py" where
  "set_file name c s = (Inr (), s\<lparr>world := (world s)\<lparr>files := (files (world s))(name := c)\<rparr>\<rparr>)"

definition get_file :: "string \<Rightarrow> (state, string) py" where
  "get_file name s =
     (case files (world s) name of
        None \<Rightarrow> (Inl (Exn OSError (''[Errno 2] No such file or directory: '' @ name)), s)
      | Some c \<Rightarrow> (Inr c, s))"

text \<open>\<^verbatim>\<open>with open(name, 'w') as f: f.write(content)\<close>: opening truncates, writing fills.\<close>

definition write_text :: "string \<Rightarrow> string \<Rightarrow> (state, unit) py" where
  "write_text name content =
     then_py os_call
    (then_py (set_file name (Some []))
    (then_py os_call
             (set_file name (Some content))))"

text \<open>\<^verbatim>\<open>with open(name, 'r') as f: f.read()\<close>\<close>

definition read_text :: "string \<Rightarrow> (state, string) py" where
  "read_text name =
     then_py os_call
    (then_py (get_file name)
    (then_py os_call
             (get_file name)))"

text \<open>\<^verbatim>\<open>os.remove(name)\<close>\<close>

definition os_remove :: "string \<Rightarrow> (state, unit) py" where
  "os_remove name =
     then_py os_call
    (then_py (get_file name)
             (set_file name None))"

section \<open>The runner\<close>

text \<open>\<^verbatim>\<open>AgentTester()\<close>: an empty result list and the start time.\<close>

definition new_tester :: "world \<Rightarrow> state" where
  "new_tester w =
     \<lparr>tester = \<lparr>test_results = [], start_time = clock w (clock_reads w)\<rparr>,
      world = w\<lparr>clock_reads := clock_reads w + 1\<rparr>\<rparr>"

definition append_result :: "test_result \<Rightarrow> (state, unit) py" where
  "append_result r s =
     (Inr (), s\<lparr>tester := (tester s)\<lparr>test_results := test_results (tester s) @ [r]\<rparr>\<rparr>)"

definition log_test :: "string \<Rightarrow> bool \<Rightarrow> string \<Rightarrow> (state, unit) py" where
  "log_test test_name ok dtl =
     bind_py datetime_now (\<lambda>ts.
       append_result \<lparr>test = test_name, success = ok, details = dtl, timestamp = ts\<rparr>)"

subsection \<open>\<^verbatim>\<open>test_basic_operations\<close>\<close>

definition basic_operations_body :: "(state, unit) py" where
  "basic_operations_body =
     (let result = (2::int) + 2;
          text = ''Hello, Agent!'';
          numbers = [1, 2, 3, 4, 5 :: int];
          squared = map (\<lambda>x. x ^ 2) numbers
      in then_py (py_assert (result = 4) (''Expected 4, got '' @ str_int result))
        (then_py (py_assert (length text = 13)
                    (''Expected length 13, got '' @ str_nat (length text)))
        (then_py (py_assert (squared = [1, 4, 9, 16, 25])
                    (''Unexpected result: '' @ repr_int_list squared))
                 (log_test ''Basic Operations'' True
                    ''Math, strings, and lists working correctly''))))"

definition test_basic_operations :: "(state, unit) py" where
  "test_basic_operations =
     try_except basic_operations_body (\<lambda>e. log_test ''Basic Operations'' False (message e))"

subsection \<open>\<^verbatim>\<open>test_file_operations\<close>\<close>

definition test_file :: string where
  "test_file = ''temp_test_file.txt''"

definition test_content :: string where
  "test_content = ''This is a test file created by the agent.'' @ [CHR 0x0A]
                  @ ''Line 2'' @ [CHR 0x0A] @ ''Line 3''"

definition file_operations_body :: "(state, unit) py" where
  "file_operations_body =
     then_py (write_text test_file test_content)
    (bind_py (read_text test_file) (\<lambda>read_content.
     then_py (py_assert (read_content = test_content) ''File content mismatch'')
    (then_py (os_remove test_file)
             (log_test ''File Operations'' True ''File write/read/delete successful''))))"

definition test_file_operations :: "(state, unit) py" where
  "test_file_operations =
     try_except file_operations_body (\<lambda>e. log_test ''File Operations'' False (message e))"

subsection \<open>\<^verbatim>\<open>test_data_structures\<close>\<close>

definition data :: json_value where
  "data = JDict [''name'' \<mapsto> JString ''Agent Test'',
                 ''version'' \<mapsto> JString ''1.0'',
                 ''features'' \<mapsto> JList [JString ''coding'', JString ''testing'',
                                            JString ''debugging'']]"

definition data_structures_body :: "(state, unit) py" where
  "data_structures_body =
     bind_py (\<lambda>s. lift_py (json_dumps (world s) data) s) (\<lambda>json_str.
     bind_py (\<lambda>s. lift_py (json_loads (world s) json_str) s) (\<lambda>parsed_data.
     then_py (py_assert (parsed_data = data) ''JSON serialization/deserialization failed'')
       (let set1 = {1, 2, 3, 4, 5 :: int};
            set2 = {4, 5, 6, 7, 8 :: int};
            intersection = set1 \<inter> set2
        in then_py (py_assert (intersection = {4, 5})
                      (''Expected (4, 5), got '' @ repr_int_set intersection))
                   (log_test ''Data Structures'' True
                      ''Dictionaries, JSON, and sets working correctly''))))"

definition test_data_structures :: "(state, unit) py" where
  "test_data_structures =
     try_except data_structures_body (\<lambda>e. log_test ''Data Structures'' False (message e))"

subsection \<open>\<^verbatim>\<open>test_algorithms\<close>\<close>

text \<open>The nested helper \<^verbatim>\<open>fibonacci\<close>; the check calls it with 10.\<close>

function fibonacci :: "int \<Rightarrow> int" where
  "fibonacci n = (if n \<le> 1 then n else fibonacci (n - 1) + fibonacci (n - 2))"
  by pat_completeness auto
termination
  by (relation "measure (\<lambda>n. nat n)") auto

text \<open>
  The nested helper \<^verbatim>\<open>is_prime\<close>. The loop is
  \<^verbatim>\<open>for i in range(2, stop): if n % i == 0: return False\<close>, followed by
  \<^verbatim>\<open>return True\<close>, with \<^verbatim>\<open>stop = int(math.sqrt(n)) + 1\<close>.
\<close>

function is_prime_loop :: "int \<Rightarrow> int \<Rightarrow> int \<Rightarrow> bool" where
  "is_prime_loop n i stop =
     (if i < stop then (if n mod i = 0 then False else is_prime_loop n (i + 1) stop)
      else True)"
  by pat_completeness auto
termination
  by (relation "measure (\<lambda>(n, i, stop). nat (stop - i))") auto

definition is_prime :: "int \<Rightarrow> exn + bool" where
  "is_prime n =
     (if n < 2 then Inr False
      else case float_of_int n of
             Inl e \<Rightarrow> Inl e
           | Inr x \<Rightarrow> (case math_sqrt x of
                         Inl e \<Rightarrow> Inl e
                       | Inr r \<Rightarrow> Inr (is_prime_loop n 2 (int_of_float r + 1))))"

definition algorithms_body :: "(state, unit) py" where
  "algorithms_body =
     (let fib_10 = fibonacci 10
      in then_py (py_assert (fib_10 = 55) (''Expected 55, got '' @ str_int fib_10))
        (let unsorted_list = [64, 34, 25, 12, 22, 11, 90 :: int];
             sorted_list = sort unsorted_list;
             expected = [11, 12, 22, 25, 34, 64, 90]
         in then_py (py_assert (sorted_list = expected)
                       (''Expected '' @ repr_int_list expected @ '', got ''
                        @ repr_int_list sorted_list))
           (bind_py (lift_py (is_prime 17)) (\<lambda>p17.
            then_py (py_assert (p17 = True) ''17 should be prime'')
           (bind_py (lift_py (is_prime 18)) (\<lambda>p18.
            then_py (py_assert (p18 = False) ''18 should not be prime'')
                    (log_test ''Algorithms'' True
                       ''Fibonacci, sorting, and prime checking working'')))))))"

definition test_algorithms :: "(state, unit) py" where
  "test_algorithms =
     try_except algorithms_body (\<lambda>e. log_test ''Algorithms'' False (message e))"

subsection \<open>\<^verbatim>\<open>test_error_handling\<close>\<close>

text \<open>\<^verbatim>\<open>lst[i]\<close> for \<open>i \<ge> 0\<close>, and \<^verbatim>\<open>"string" + 42\<close>.\<close>

definition py_index :: "'a list \<Rightarrow> nat \<Rightarrow> exn + 'a" where
  "py_index xs i = (if i < length xs then Inr (xs ! i)
                    else Inl (Exn IndexError ''list index out of range''))"

definition str_plus_int :: "string \<Rightarrow> int \<Rightarrow> exn + string" where
  "str_plus_int a b = Inl (Exn TypeError (''can only concatenate str (not '' @ [CHR 0x22] @ ''int''
          @ [CHR 0x22] @ '') to str''))"

definition error_handling_body :: "(state, unit) py" where
  "error_handling_body =
     then_py (try_except_kind ZeroDivisionError
                (bind_py (lift_py (py_truediv 10 0)) (\<lambda>result.
                   log_test ''Error Handling'' False ''Should have caught division by zero''))
                (return_py ()))
    (then_py (try_except_kind IndexError
                (bind_py (lift_py (py_index [1, 2, 3 :: int] 10)) (\<lambda>item.
                   log_test ''Error Handling'' False ''Should have caught index error''))
                (return_py ()))
    (then_py (try_except_kind TypeError
                (bind_py (lift_py (str_plus_int ''string'' 42)) (\<lambda>result.
                   log_test ''Error Handling'' False ''Should have caught type error''))
                (return_py ()))
             (log_test ''Error Handling'' True ''All expected errors caught correctly'')))"

definition test_error_handling :: "(state, unit) py" where
  "test_error_handling =
     try_except error_handling_body (\<lambda>e. log_test ''Error Handling'' False (message e))"

subsection \<open>\<^verbatim>\<open>generate_report\<close> and \<^verbatim>\<open>main\<close>\<close>

text \<open>
  \<^verbatim>\<open>timedelta.total_seconds()\<close> divides the microseconds by \<open>10^6\<close>. The quotient
  \<^verbatim>\<open>passed/total\<close> is evaluated twice, first for the printed line
  \<^verbatim>\<open>Success Rate: ...\<close> and then for the returned dictionary.
\<close>

definition total_seconds :: "int \<Rightarrow> rat" where
  "total_seconds us = round_double (of_int us / 10 ^ 6)"

definition generate_report :: "(state, report) py" where
  "generate_report =
     bind_py datetime_now (\<lambda>end_time s.
       (let self = tester s;
            duration = end_time - start_time self;
            passed = int (length (filter success (test_results self)));
            total = int (length (test_results self))
        in bind_py (lift_py (py_truediv passed total)) (\<lambda>printed_rate.
           bind_py (lift_py (py_truediv passed total)) (\<lambda>q.
             return_py \<lparr>total_tests = total,
                        passed = passed,
                        failed = total - passed,
                        success_rate = float_mul q 100,
                        duration_seconds = total_seconds duration,
                        results = test_results self\<rparr>))) s)"

text \<open>
  \<^verbatim>\<open>with open("agent_test_report.json", "w") as f: json.dump(report, f, indent=2)\<close>
\<close>

definition save_report :: "report \<Rightarrow> (state, unit) py" where
  "save_report rep =
     then_py os_call
    (then_py (set_file ''agent_test_report.json'' (Some []))
    (bind_py (\<lambda>s. lift_py (json_dump_report (world s) rep) s) (\<lambda>txt.
     then_py os_call
             (set_file ''agent_test_report.json'' (Some txt)))))"

definition run_all_tests :: "(state, unit) py" where
  "run_all_tests =
     then_py test_basic_operations
    (then_py test_file_operations
    (then_py test_data_structures
    (then_py test_algorithms
             test_error_handling)))"

definition main :: "world \<Rightarrow> (exn + bool) \<times> state" where
  "main w =
     (then_py run_all_tests
     (bind_py generate_report (\<lambda>rep.
      then_py (save_report rep)
              (return_py (success_rate rep = 100))))) (new_tester w)"

text \<open>
  \<^verbatim>\<open>success = main(); sys.exit(0 if success else 1)\<close>. An exception that leaves
  \<^verbatim>\<open>main\<close> is uncaught: the interpreter prints the traceback and exits with status 1.
\<close>

definition exit_status :: "world \<Rightarrow> int" where
  "exit_status w = (case fst (main w) of Inl e \<Rightarrow> 1 | Inr ok \<Rightarrow> (if ok then 0 else 1))"

section \<open>The static file server\<close>

text \<open>
  The platform decides the number of \<^verbatim>\<open>EADDRINUSE\<close>, the error of a bind to an address
  that is already in use: 48 on macOS and the BSDs, 98 on Linux, 10048 on Windows.
\<close>

datatype platform = Darwin | Linux | Windows

fun eaddrinuse :: "platform \<Rightarrow> int" where
  "eaddrinuse Darwin = 48"
| "eaddrinuse Linux = 98"
| "eaddrinuse Windows = 10048"

text \<open>
  What the server meets: the platform, the outcome of \<^verbatim>\<open>os.chdir\<close>, and for every port
  the outcome of binding \<^verbatim>\<open>TCPServer(("", port), ...)\<close>; an error is the \<^verbatim>\<open>errno\<close> and
  the message of the \<^verbatim>\<open>OSError\<close>. A bound server runs \<^verbatim>\<open>serve_forever\<close> until the
  operator interrupts it.
\<close>

record server_env =
  os_platform :: platform
  chdir_error :: "(int \<times> string) option"
  bind_error :: "int \<Rightarrow> (int \<times> string) option"

text \<open>
  How the process ends: it served on a port until interrupted and returned (status 0),
  it called \<^verbatim>\<open>sys.exit\<close>, or an exception other than \<^verbatim>\<open>OSError\<close> left
  \<^verbatim>\<open>start_server\<close> uncaught (status 1).
\<close>

datatype server_end = Served int | SystemExit int | Uncaught exn

fun server_exit_status :: "server_end \<Rightarrow> int" where
  "server_exit_status (Served p) = 0"
| "server_exit_status (SystemExit c) = c"
| "server_exit_status (Uncaught e) = 1"

text \<open>
  \<^verbatim>\<open>start_server(port)\<close>. The first argument is the number of stack frames left: the
  retry is a recursive call from inside the handler, so a long run of occupied ports
  ends in \<^verbatim>\<open>RecursionError\<close>. A port outside \<open>0..65535\<close> makes the bind raise
  \<^verbatim>\<open>OverflowError\<close>. Neither is an \<^verbatim>\<open>OSError\<close>, so neither is caught.
\<close>

fun start_server :: "server_env \<Rightarrow> nat \<Rightarrow> int \<Rightarrow> server_end" where
  "start_server env 0 port =
     Uncaught (Exn OtherException ''maximum recursion depth exceeded'')"
| "start_server env (Suc frames) port =
     (let os_error = (case chdir_error env of
                        Some e \<Rightarrow> Inl (Some e)
                      | None \<Rightarrow>
                          if port < 0 \<or> 65535 < port then Inl None
                          else (case bind_error env port of
                                  Some e \<Rightarrow> Inl (Some e)
                                | None \<Rightarrow> Inr port))
      in case os_error of
           Inr p \<Rightarrow> Served p
         | Inl None \<Rightarrow> Uncaught (Exn OverflowError ''bind(): port must be 0-65535.'')
         | Inl (Some (errno, msg)) \<Rightarrow>
             if errno = 48 then start_server env frames (port + 1)
             else SystemExit 1)"

section \<open>Vocabulary of the properties\<close>





text \<open>
  An environment for examples: an empty working directory, no failing system call, a
  clock that advances by one microsecond per reading, and a \<^verbatim>\<open>json\<close> module that
  round-trips the dictionary of the data-structures check.
\<close>

definition example_world :: world where
  "example_world =
     \<lparr>files = Map.empty,
      os_faults = (\<lambda>k. None),
      os_calls = 0,
      clock = (\<lambda>k. int k),
      clock_reads = 0,
      json_dumps = (\<lambda>v. Inr ''{...}''),
      json_loads = (\<lambda>txt. Inr data),
      json_dump_report = (\<lambda>rep. Inr ''{...}'')\<rparr>"



text \<open>An integer is a prime number: greater than 1 and without a divisor strictly between 1 and itself.\<close>

definition prime_number :: "int \<Rightarrow> bool" where
  "prime_number n \<longleftrightarrow> 1 < n \<and> (\<forall>d. 1 < d \<and> d < n \<longrightarrow> \<not> d dvd n)"

text \<open>
  The report that \<^verbatim>\<open>main\<close> generates, before it is saved: the first two steps of
  \<^verbatim>\<open>main\<close>, with the state they leave.
\<close>

definition generated_report :: "world \<Rightarrow> (exn + report) \<times> state" where
  "generated_report w = then_py run_all_tests generate_report (new_tester w)"


section \<open>Facts about binary64 rounding\<close>

lemma bitlen_rat_bounds:
  assumes "0 < a"
  shows "(2::rat) powi (bitlen a - 1) \<le> of_int a" and "of_int a < (2::rat) powi (bitlen a)"
proof -
  from assms have b1: "1 \<le> bitlen a" by (auto simp: bitlen_alt_def)
  from bitlen_bounds[OF assms] have lo: "2 ^ nat (bitlen a - 1) \<le> a" and hi: "a < 2 ^ nat (bitlen a)"
    by auto
  have "(of_int (2 ^ nat (bitlen a - 1)) :: rat) \<le> of_int a"
    using lo by (simp only: of_int_le_iff)
  then show "(2::rat) powi (bitlen a - 1) \<le> of_int a"
    using b1 by (simp add: power_int_def)
  have "(of_int a :: rat) < of_int (2 ^ nat (bitlen a))"
    using hi by (simp only: of_int_less_iff)
  then show "of_int a < (2::rat) powi (bitlen a)"
    using b1 by (simp add: power_int_def)
qed

lemma powi2_pos: "0 < (2::rat) powi k"
  by (simp add: power_int_def)

lemma powi2_less: "m < n \<Longrightarrow> (2::rat) powi m < 2 powi n"
  by (rule power_int_strict_increasing) simp_all

lemma powi2_le: "m \<le> n \<Longrightarrow> (2::rat) powi m \<le> 2 powi n"
  by (rule power_int_increasing) simp_all

lemma ilog2_bounds:
  assumes "0 < x"
  shows "2 powi (ilog2 x) \<le> x \<and> x < 2 powi (ilog2 x + 1)"
proof -
  obtain a b where q: "quotient_of x = (a, b)" by (cases "quotient_of x")
  then have b: "0 < b" and x: "x = of_int a / of_int b"
    by (simp_all add: quotient_of_denom_pos quotient_of_div)
  with assms have a: "0 < a"
    by (simp add: zero_less_divide_iff)
  define e0 where "e0 = bitlen a - bitlen b"
  note A = bitlen_rat_bounds[OF a] and B = bitlen_rat_bounds[OF b]
  have bpos: "(0::rat) < of_int b" using b by simp
  have "x < 2 powi (bitlen a) / 2 powi (bitlen b - 1)"
    unfolding x using A(2) B(1) a powi2_pos[of "bitlen b - 1"]
    by (intro frac_less) simp_all
  also have "\<dots> = 2 powi (e0 + 1)"
    by (simp add: e0_def power_int_diff[symmetric] algebra_simps)
  finally have up: "x < 2 powi (e0 + 1)" .
  have "2 powi (bitlen a - 1) / 2 powi (bitlen b) < x"
    unfolding x using A(1) B(2) bpos powi2_pos[of "bitlen a - 1"]
    by (intro frac_less2) simp_all
  moreover have "2 powi (bitlen a - 1) / 2 powi (bitlen b) = (2::rat) powi (e0 - 1)"
    by (simp add: e0_def power_int_diff[symmetric] algebra_simps)
  ultimately have lo: "2 powi (e0 - 1) < x" by simp
  show ?thesis
  proof (cases "2 powi e0 \<le> x")
    case True
    then have "ilog2 x = e0" by (simp add: ilog2_def q e0_def)
    with True up show ?thesis by simp
  next
    case False
    then have "ilog2 x = e0 - 1" by (simp add: ilog2_def q e0_def)
    with False lo show ?thesis by simp
  qed
qed

lemma ilog2_unique:
  assumes "2 powi e \<le> x" and "x < 2 powi (e + 1)"
  shows "ilog2 x = e"
proof -
  have x: "0 < x" by (rule less_le_trans[OF powi2_pos assms(1)])
  from ilog2_bounds[OF x] have lo: "2 powi (ilog2 x) \<le> x" and hi: "x < 2 powi (ilog2 x + 1)"
    by simp_all
  have "\<not> ilog2 x < e"
  proof
    assume "ilog2 x < e"
    then have "(2::rat) powi (ilog2 x + 1) \<le> 2 powi e" by (intro powi2_le) simp
    with hi assms(1) show False by simp
  qed
  moreover have "\<not> e < ilog2 x"
  proof
    assume "e < ilog2 x"
    then have "(2::rat) powi (e + 1) \<le> 2 powi (ilog2 x)" by (intro powi2_le) simp
    with lo assms(2) show False by simp
  qed
  ultimately show ?thesis by simp
qed

lemma round_half_even_of_int: "round_half_even (of_int n) = n"
  by (simp add: round_half_even_def)

lemma round_half_even_le:
  assumes "q < of_int K + 1 / 2"
  shows "round_half_even q \<le> K"
proof -
  have fl: "\<lfloor>q\<rfloor> \<le> K"
  proof -
    have "q < of_int (K + 1)" using assms by simp
    then show ?thesis using floor_less_iff[of q "K + 1"] by simp
  qed
  show ?thesis
  proof (cases "\<lfloor>q\<rfloor> = K")
    case True
    with assms have "q - of_int \<lfloor>q\<rfloor> < 1 / 2" by simp
    then show ?thesis using True by (simp add: round_half_even_def Let_def)
  next
    case False
    with fl have "\<lfloor>q\<rfloor> + 1 \<le> K" by simp
    then show ?thesis by (simp add: round_half_even_def Let_def)
  qed
qed

lemma round_half_even_ge:
  assumes "of_int K - 1 / 2 < q"
  shows "K \<le> round_half_even q"
proof -
  have fl: "K - 1 \<le> \<lfloor>q\<rfloor>"
  proof -
    have "of_int (K - 1) \<le> q" using assms by simp
    then show ?thesis by (simp add: le_floor_iff)
  qed
  show ?thesis
  proof (cases "\<lfloor>q\<rfloor> = K - 1")
    case True
    then have "of_int \<lfloor>q\<rfloor> = (of_int K :: rat) - 1" by simp
    with assms have "1 / 2 < q - of_int \<lfloor>q\<rfloor>" by simp
    then show ?thesis using True by (simp add: round_half_even_def Let_def)
  next
    case False
    with fl have "K \<le> \<lfloor>q\<rfloor>" by simp
    then show ?thesis by (auto simp add: round_half_even_def Let_def)
  qed
qed


lemma round_double_pos:
  assumes "2 powi e \<le> x" and "x < 2 powi (e + 1)" and "- 1022 \<le> e"
  shows "round_double x = of_int (round_half_even (x / 2 powi (e - 52))) * 2 powi (e - 52)"
proof -
  have x: "0 < x" by (rule less_le_trans[OF powi2_pos assms(1)])
  have "ilog2 \<bar>x\<bar> = e" using x assms by (simp add: ilog2_unique)
  then show ?thesis using x assms(3) by (simp add: round_double_def Let_def max_def)
qed

lemma round_half_even_nonneg: "0 \<le> q \<Longrightarrow> 0 \<le> round_half_even q"
  using round_half_even_ge[of 0 q] by simp

lemma round_double_pos_gen:
  assumes "0 < x"
  shows "round_double x = of_int (round_half_even (x / 2 powi (max (ilog2 x) (- 1022) - 52)))
           * 2 powi (max (ilog2 x) (- 1022) - 52)"
  using assms by (simp add: round_double_def Let_def)

lemma round_double_nonneg:
  assumes "0 \<le> x"
  shows "0 \<le> round_double x"
proof (cases "x = 0")
  case True
  then show ?thesis by (simp add: round_double_def)
next
  case False
  with assms have x: "0 < x" by simp
  have "0 \<le> x / 2 powi (max (ilog2 x) (- 1022) - 52)"
    using x powi2_pos[of "max (ilog2 x) (- 1022) - 52"] by simp
  then have "0 \<le> round_half_even (x / 2 powi (max (ilog2 x) (- 1022) - 52))"
    by (rule round_half_even_nonneg)
  then show ?thesis
    unfolding round_double_pos_gen[OF x]
    using powi2_pos[of "max (ilog2 x) (- 1022) - 52"] by simp
qed

lemma round_double_le_powi:
  assumes x: "0 < x" and lt: "x < 2 powi k" and k: "- 1021 \<le> k"
  shows "round_double x \<le> 2 powi k"
proof -
  define e where "e = max (ilog2 x) (- 1022)"
  define u :: rat where "u = 2 powi (e - 52)"
  have u: "0 < u" by (simp add: u_def powi2_pos)
  have "ilog2 x < k"
  proof (rule ccontr)
    assume "\<not> ilog2 x < k"
    then have "(2::rat) powi k \<le> 2 powi (ilog2 x)" by (intro powi2_le) simp
    with ilog2_bounds[OF x] lt show False by simp
  qed
  with k have ek: "e + 1 \<le> k" by (simp add: e_def)
  have "x / u < 2 powi k / u" using lt u by (simp add: divide_strict_right_mono)
  also have "\<dots> = 2 powi (k - (e - 52))" by (simp add: u_def power_int_diff)
  finally have "x / u < 2 powi (k - (e - 52))" .
  moreover have "(2::rat) powi (k - (e - 52)) = of_int (2 ^ nat (k - (e - 52)))"
    using ek by (simp add: power_int_def)
  ultimately have "x / u < of_int (2 ^ nat (k - (e - 52))) + 1 / 2" by simp
  then have "round_half_even (x / u) \<le> 2 ^ nat (k - (e - 52))"
    by (rule round_half_even_le)
  then have "(of_int (round_half_even (x / u)) :: rat) \<le> of_int (2 ^ nat (k - (e - 52)))"
    by (simp only: of_int_le_iff)
  also have "\<dots> = 2 powi (k - (e - 52))" using ek by (simp add: power_int_def)
  finally have "of_int (round_half_even (x / u)) * u \<le> 2 powi (k - (e - 52)) * u"
    using u by (simp add: mult_right_mono)
  also have "\<dots> = 2 powi k" by (simp add: u_def power_int_add[symmetric])
  finally show ?thesis
    unfolding round_double_pos_gen[OF x] e_def[symmetric] u_def[symmetric] .
qed

lemma round_double_of_int:
  assumes "0 < n" and "n < 2 ^ 53"
  shows "round_double (of_int n) = of_int n"
proof -
  define x :: rat where "x = of_int n"
  have x: "0 < x" using assms by (simp add: x_def)
  define e where "e = ilog2 x"
  have lo: "2 powi e \<le> x" and hi: "x < 2 powi (e + 1)"
    using ilog2_bounds[OF x] by (simp_all add: e_def)
  have "1 \<le> x" using assms by (simp add: x_def)
  have e0: "0 \<le> e"
  proof (rule ccontr)
    assume "\<not> 0 \<le> e"
    then have "(2::rat) powi (e + 1) \<le> 2 powi 0" by (intro powi2_le) simp
    with hi \<open>1 \<le> x\<close> show False by simp
  qed
  have e52: "e \<le> 52"
  proof (rule ccontr)
    assume "\<not> e \<le> 52"
    then have "(2::rat) powi 53 \<le> 2 powi e" by (intro powi2_le) simp
    with lo have "(2::rat) ^ 53 \<le> of_int n" by (simp add: x_def)
    moreover have "(of_int n :: rat) < of_int (2 ^ 53)" using assms by (simp only: of_int_less_iff)
    ultimately show False by simp
  qed
  have u: "(2::rat) powi (e - 52) = 1 / of_int (2 ^ nat (52 - e))"
    using e52 power_int_minus_divide[of "2::rat" "52 - e"] by (simp add: power_int_def)
  have "round_double x = of_int (round_half_even (x / 2 powi (e - 52))) * 2 powi (e - 52)"
    using lo hi e0 by (intro round_double_pos) simp_all
  also have "x / 2 powi (e - 52) = of_int (n * 2 ^ nat (52 - e))"
    by (simp add: u x_def)
  also have "round_half_even (of_int (n * 2 ^ nat (52 - e))) = n * 2 ^ nat (52 - e)"
    by (rule round_half_even_of_int)
  also have "of_int (n * 2 ^ nat (52 - e)) * (2::rat) powi (e - 52) = x"
    by (simp add: u x_def)
  finally show ?thesis by (simp add: x_def)
qed

section \<open>Report generation\<close>

lemma round_double_zero: "round_double 0 = 0"
  by (simp add: round_double_def)

lemma round_double_unit:
  assumes "0 \<le> x" and "x \<le> 1"
  shows "round_double x \<le> 1"
proof (cases "x = 1")
  case True
  have "round_double (of_int 1) = of_int 1" by (rule round_double_of_int) simp_all
  with True show ?thesis by simp
next
  case False
  show ?thesis
  proof (cases "x = 0")
    case True
    then show ?thesis by (simp add: round_double_zero)
  next
    case x0: False
    have "round_double x \<le> 2 powi 0"
      using assms False x0 by (intro round_double_le_powi) simp_all
    then show ?thesis by simp
  qed
qed

lemma py_truediv_ratio:
  assumes "0 \<le> p" and "p \<le> t" and "0 < t"
  shows "py_truediv p t = Inr (round_double (of_int p / of_int t))"
proof -
  have q: "0 \<le> (of_int p / of_int t :: rat)" "(of_int p / of_int t :: rat) \<le> 1"
    using assms by simp_all
  have "\<bar>round_double (of_int p / of_int t)\<bar> \<le> 1"
    using round_double_nonneg[OF q(1)] round_double_unit[OF q] by simp
  moreover have "(1::rat) < 2 ^ 1024" by simp
  ultimately have "\<not> 2 ^ 1024 \<le> \<bar>round_double (of_int p / of_int t)\<bar>" by linarith
  then show ?thesis using assms by (simp add: py_truediv_def Let_def)
qed

lemma generate_report_run:
  "generate_report s =
     (case py_truediv (int (length (filter success (test_results (tester s)))))
                      (int (length (test_results (tester s)))) of
        Inl e \<Rightarrow> (Inl e, s\<lparr>world := (world s)\<lparr>clock_reads := clock_reads (world s) + 1\<rparr>\<rparr>)
      | Inr q \<Rightarrow>
          (Inr \<lparr>total_tests = int (length (test_results (tester s))),
                passed = int (length (filter success (test_results (tester s)))),
                failed = int (length (test_results (tester s)))
                         - int (length (filter success (test_results (tester s)))),
                success_rate = float_mul q 100,
                duration_seconds =
                  total_seconds (clock (world s) (clock_reads (world s)) - start_time (tester s)),
                results = test_results (tester s)\<rparr>,
           s\<lparr>world := (world s)\<lparr>clock_reads := clock_reads (world s) + 1\<rparr>\<rparr>))"
  by (simp add: generate_report_def bind_py_def lift_py_def return_py_def datetime_now_def
      Let_def split: sum.splits)

lemma truediv_results:
  assumes "rs \<noteq> []"
  shows "py_truediv (int (length (filter P rs))) (int (length rs))
         = Inr (round_double (of_int (int (length (filter P rs))) / of_int (int (length rs))))"
  using assms by (intro py_truediv_ratio) simp_all

lemma length_filter_not:
  "int (length (filter (\<lambda>r. \<not> P r) rs)) = int (length rs) - int (length (filter P rs))"
  using sum_length_filter_compl[of P rs] by simp

text \<open>
  Claim C1. The spec requires that report generation does not divide by zero when no
  result has been recorded. The code has no guard: for a freshly constructed
  \<^verbatim>\<open>AgentTester\<close> the quotient \<^verbatim>\<open>passed/total\<close> is \<open>0/0\<close> and \<^verbatim>\<open>generate_report\<close>
  raises \<^verbatim>\<open>ZeroDivisionError\<close> instead of returning a report.
\<close>

theorem generate_report_empty_raises:
  "fst (generate_report (new_tester w)) = Inl (Exn ZeroDivisionError ''division by zero'')"
  by (simp add: generate_report_run py_truediv_def new_tester_def)

text \<open>
  Claim C5. Whenever \<^verbatim>\<open>generate_report\<close> returns a report, its \<open>total\<close> is the length
  of the results sequence, \<open>passed + failed = total\<close>, \<open>passed\<close> counts the results
  with \<open>success\<close> true and \<open>failed\<close> those with \<open>success\<close> false; and it returns a
  report for every results sequence but the empty one.
\<close>

theorem generate_report_counts:
  "(case fst (generate_report s) of
      Inr rep \<Rightarrow>
        total_tests rep = int (length (test_results (tester s)))
        \<and> passed rep + failed rep = total_tests rep
        \<and> passed rep = int (length (filter success (test_results (tester s))))
        \<and> failed rep = int (length (filter (\<lambda>r. \<not> success r) (test_results (tester s))))
    | Inl e \<Rightarrow> test_results (tester s) = [])"
proof (cases "test_results (tester s) = []")
  case True
  then show ?thesis by (simp add: generate_report_run py_truediv_def)
next
  case False
  then show ?thesis
    by (simp add: generate_report_run truediv_results length_filter_not)
qed

text \<open>
  Claim C8. \<^verbatim>\<open>generate_report\<close> only reads the runner: the results sequence and the
  start time are the same after the call (so are the files; only the clock has been
  read), and the \<open>results\<close> field of the returned report is the recorded sequence, in
  its order.
\<close>

theorem generate_report_pure:
  "tester (snd (generate_report s)) = tester s
   \<and> files (world (snd (generate_report s))) = files (world s)
   \<and> (case fst (generate_report s) of
        Inr rep \<Rightarrow> results rep = test_results (tester s)
      | Inl e \<Rightarrow> test_results (tester s) = [])"
proof (cases "test_results (tester s) = []")
  case True
  then show ?thesis by (simp add: generate_report_run py_truediv_def)
next
  case False
  then show ?thesis
    by (simp add: generate_report_run truediv_results)
qed

section \<open>The five checks\<close>
















lemma log_test_run:
  "log_test n ok d s =
     (Inr (), \<lparr>tester = (tester s)\<lparr>test_results := test_results (tester s)
                  @ [\<lparr>test = n, success = ok, details = d,
                      timestamp = clock (world s) (clock_reads (world s))\<rparr>]\<rparr>,
               world = (world s)\<lparr>clock_reads := clock_reads (world s) + 1\<rparr>\<rparr>)"
  by (simp add: log_test_def bind_py_def datetime_now_def append_result_def Let_def)









lemma error_handling_body_run:
  "error_handling_body = log_test ''Error Handling'' True ''All expected errors caught correctly''"
  by (rule ext)
     (simp add: error_handling_body_def then_py_def bind_py_def try_except_kind_def lift_py_def
        py_truediv_def py_index_def str_plus_int_def return_py_def)


























section \<open>The server's bind failures\<close>

lemma start_server_frames:
  assumes "0 < frames"
  shows "start_server env frames port =
     (case chdir_error env of
        Some (errno, msg) \<Rightarrow>
          if errno = 48 then start_server env (frames - 1) (port + 1) else SystemExit 1
      | None \<Rightarrow>
          if port < 0 \<or> 65535 < port
          then Uncaught (Exn OverflowError ''bind(): port must be 0-65535.'')
          else (case bind_error env port of
                  Some (errno, msg) \<Rightarrow>
                    if errno = 48 then start_server env (frames - 1) (port + 1) else SystemExit 1
                | None \<Rightarrow> Served port))"
proof -
  from assms obtain k where k: "frames = Suc k" by (cases frames) simp_all
  show ?thesis unfolding k by (simp split: option.splits)
qed

lemma start_server_retry_on_48:
  assumes "0 < frames" and "chdir_error env = None" and "0 \<le> port" and "port \<le> 65535"
    and "bind_error env port = Some (48, msg)"
  shows "start_server env frames port = start_server env (frames - 1) (port + 1)"
  using assms by (simp add: start_server_frames)

lemma start_server_other_error_exits:
  assumes "0 < frames" and "chdir_error env = None" and "0 \<le> port" and "port \<le> 65535"
    and "bind_error env port = Some (errno, msg)" and "errno \<noteq> 48"
  shows "server_exit_status (start_server env frames port) = 1"
  using assms by (simp add: start_server_frames)

lemma start_server_darwin_port_in_use:
  "start_server
     \<lparr>os_platform = Darwin, chdir_error = None,
      bind_error = (\<lambda>p. if p = 8000 then Some (eaddrinuse Darwin, ''Address already in use'')
                         else None)\<rparr> 1000 8000 = Served 8001"
  by (simp add: start_server_frames)


text \<open>
  Claim C9. The handler compares \<^verbatim>\<open>e.errno\<close> with the literal 48 and its comment
  reads \<^verbatim>\<open>Address already in use\<close>. That is the number of \<^verbatim>\<open>EADDRINUSE\<close> on macOS
  only. On Linux a bind to an occupied port fails with \<^verbatim>\<open>errno\<close> 98: with port 8000
  occupied and 8001 free, the server does not retry on 8001 but exits with status 1.
  (On macOS the same situation ends with the server bound to 8001, see
  \<open>start_server_darwin_port_in_use\<close>.)
\<close>

theorem start_server_linux_port_in_use:
  "start_server
     \<lparr>os_platform = Linux, chdir_error = None,
      bind_error = (\<lambda>p. if p = 8000 then Some (eaddrinuse Linux, ''Address already in use'')
                         else None)\<rparr> 1000 8000 = SystemExit 1"
  by (simp add: start_server_frames)

section \<open>The success rate\<close>

















section \<open>The primality helper\<close>

declare isqrt_bisect.simps [simp del]

lemma isqrt_bisect_correct:
  assumes "0 \<le> lo" and "lo < hi" and "lo * lo \<le> n" and "n < hi * hi"
  shows "0 \<le> isqrt_bisect n lo hi
         \<and> isqrt_bisect n lo hi * isqrt_bisect n lo hi \<le> n
         \<and> n < (isqrt_bisect n lo hi + 1) * (isqrt_bisect n lo hi + 1)"
  using assms
proof (induction n lo hi rule: isqrt_bisect.induct)
  case (1 n lo hi)
  show ?case
  proof (cases "hi \<le> lo + 1")
    case True
    then have eq: "isqrt_bisect n lo hi = lo" by (subst isqrt_bisect.simps) simp
    from True "1.prems" have "hi = lo + 1" by simp
    with "1.prems" show ?thesis unfolding eq by simp
  next
    case False
    define mid where "mid = (lo + hi) div 2"
    have mid: "lo < mid" "mid < hi" using False by (simp_all add: mid_def)
    show ?thesis
    proof (cases "mid * mid \<le> n")
      case True
      have eq: "isqrt_bisect n lo hi = isqrt_bisect n mid hi"
        using False True by (subst isqrt_bisect.simps) (simp add: mid_def Let_def)
      have "0 \<le> mid" using mid "1.prems"(1) by simp
      from "1.IH"(1)[OF False mid_def True this mid(2) True "1.prems"(4)]
      show ?thesis unfolding eq .
    next
      case nle: False
      have eq: "isqrt_bisect n lo hi = isqrt_bisect n lo mid"
        using False nle by (subst isqrt_bisect.simps) (simp add: mid_def Let_def)
      from nle have "n < mid * mid" by simp
      from "1.IH"(2)[OF False mid_def nle "1.prems"(1) mid(1) "1.prems"(3) this]
      show ?thesis unfolding eq .
    qed
  qed
qed

lemma isqrt_correct:
  assumes "0 \<le> n"
  shows "0 \<le> isqrt n" and "isqrt n * isqrt n \<le> n" and "n < (isqrt n + 1) * (isqrt n + 1)"
proof -
  have "n < (n + 1) * (n + 1)"
  proof -
    have "(n + 1) * (n + 1) = n * n + 2 * n + 1" by (simp add: algebra_simps)
    with assms zero_le_square[of n] show ?thesis by linarith
  qed
  with assms have "0 \<le> isqrt_bisect n 0 (n + 1)
         \<and> isqrt_bisect n 0 (n + 1) * isqrt_bisect n 0 (n + 1) \<le> n
         \<and> n < (isqrt_bisect n 0 (n + 1) + 1) * (isqrt_bisect n 0 (n + 1) + 1)"
    by (intro isqrt_bisect_correct) simp_all
  then show "0 \<le> isqrt n" and "isqrt n * isqrt n \<le> n" and "n < (isqrt n + 1) * (isqrt n + 1)"
    by (simp_all add: isqrt_def)
qed

lemma square_less_imp_less:
  fixes a b :: int
  assumes "a * a < b * b" and "0 \<le> b"
  shows "a < b"
proof (rule ccontr)
  assume "\<not> a < b"
  then have "b \<le> a" by simp
  with assms(2) have "b * b \<le> a * a" by (simp add: mult_mono)
  with assms(1) show False by simp
qed


declare is_prime_loop.simps [simp del]

lemma ilog2_of_int_range:
  assumes "1 \<le> n" and "n < 2 ^ 53"
  shows "0 \<le> ilog2 (of_int n)" and "ilog2 (of_int n) \<le> 52"
proof -
  define x :: rat where "x = of_int n"
  have x: "0 < x" and x1: "1 \<le> x" using assms by (simp_all add: x_def)
  have lo: "2 powi (ilog2 x) \<le> x" and hi: "x < 2 powi (ilog2 x + 1)"
    using ilog2_bounds[OF x] by simp_all
  show "0 \<le> ilog2 (of_int n)"
  proof (rule ccontr)
    assume "\<not> 0 \<le> ilog2 (of_int n)"
    then have "(2::rat) powi (ilog2 x + 1) \<le> 2 powi 0" unfolding x_def by (intro powi2_le) simp
    with hi x1 show False by simp
  qed
  show "ilog2 (of_int n) \<le> 52"
  proof (rule ccontr)
    assume "\<not> ilog2 (of_int n) \<le> 52"
    then have "(2::rat) powi 53 \<le> 2 powi (ilog2 x)" unfolding x_def by (intro powi2_le) simp
    with lo have "(2::rat) ^ 53 \<le> of_int n" by (simp add: x_def)
    moreover have "(of_int n :: rat) < of_int (2 ^ 53)" using assms by (simp only: of_int_less_iff)
    ultimately show False by simp
  qed
qed

lemma sqrt_double_of_int_shape:
  assumes "1 \<le> n" and "n < 2 ^ 53"
  shows "\<exists>c m. 1 \<le> c \<and> sqrt_double (of_int n) = of_int m / of_int c
           \<and> isqrt (n * c * c) \<le> m \<and> m \<le> isqrt (n * c * c) + 1"
proof -
  define e where "e = ilog2 (of_int n) div 2"
  have e: "0 \<le> e" "e \<le> 26" using ilog2_of_int_range[OF assms] by (simp_all add: e_def)
  define c :: int where "c = 2 ^ nat (52 - e)"
  have c1: "1 \<le> c" by (simp add: c_def)
  have u: "(2::rat) powi (e - 52) = 1 / of_int c"
    using e power_int_minus_divide[of "2::rat" "52 - e"] by (simp add: power_int_def c_def)
  have y: "(of_int n :: rat) / (2 powi (e - 52) * 2 powi (e - 52)) = of_int (n * c * c)"
    unfolding u using c1 by simp
  define s where "s = isqrt (n * c * c)"
  define h :: rat where "h = of_int (s * s + s) + 1 / 4"
  define m where "m = (if of_int (n * c * c) < h then s
                        else if h < of_int (n * c * c) then s + 1
                        else if even s then s else s + 1)"
  have n0: "(of_int n :: rat) \<noteq> 0" using assms(1) by simp
  have "sqrt_double (of_int n) = of_int m * 2 powi (e - 52)"
    unfolding sqrt_double_def Let_def e_def[symmetric] y floor_of_int m_def h_def s_def
    using n0 by (simp only: if_False)
  then have "sqrt_double (of_int n) = of_int m / of_int c" unfolding u by simp
  moreover have "s \<le> m" "m \<le> s + 1" by (simp_all add: m_def)
  ultimately show ?thesis using c1 unfolding s_def by blast
qed

lemma int_sqrt_bounds:
  assumes "1 \<le> n" and "n < 2 ^ 53"
  shows "isqrt n \<le> int_of_float (sqrt_double (of_int n))"
    and "int_of_float (sqrt_double (of_int n)) \<le> isqrt n + 1"
proof -
  from sqrt_double_of_int_shape[OF assms] obtain c m where
    c1: "1 \<le> c" and sd: "sqrt_double (of_int n) = of_int m / of_int c"
    and lo: "isqrt (n * c * c) \<le> m" and hi: "m \<le> isqrt (n * c * c) + 1"
    by blast
  define k where "k = isqrt n"
  define s where "s = isqrt (n * c * c)"
  have n0: "0 \<le> n" using assms(1) by simp
  note kn = isqrt_correct[OF n0, folded k_def]
  have ncc0: "0 \<le> n * c * c" using n0 c1 by simp
  note sn = isqrt_correct[OF ncc0, folded s_def]
  have c0: "0 < c" using c1 by simp
  have "(k * c) * (k * c) = (k * k) * (c * c)" by (simp add: algebra_simps)
  also have "\<dots> \<le> n * (c * c)" using kn(2) by (intro mult_right_mono) simp_all
  also have "\<dots> < (s + 1) * (s + 1)" using sn(3) by (simp add: mult.assoc)
  finally have "(k * c) * (k * c) < (s + 1) * (s + 1)" .
  moreover have "0 \<le> s + 1" using sn(1) by simp
  ultimately have "k * c < s + 1" by (rule square_less_imp_less)
  with lo have kcm: "k * c \<le> m" unfolding s_def by simp
  have "s * s \<le> n * (c * c)" using sn(2) by (simp add: mult.assoc)
  also have "\<dots> < ((k + 1) * (k + 1)) * (c * c)"
    using kn(3) c0 by (intro mult_strict_right_mono) simp_all
  also have "\<dots> = ((k + 1) * c) * ((k + 1) * c)" by (simp add: algebra_simps)
  finally have "s * s < ((k + 1) * c) * ((k + 1) * c)" .
  moreover have "0 \<le> (k + 1) * c" using kn(1) c0 by simp
  ultimately have "s < (k + 1) * c" by (rule square_less_imp_less)
  with hi have mkc: "m \<le> (k + 1) * c" unfolding s_def by simp
  have "0 \<le> k * c" using kn(1) c0 by simp
  with kcm have m0: "0 \<le> m" by simp
  have "(0::rat) \<le> of_int m / of_int c" using m0 c0 by simp
  then have fl: "int_of_float (sqrt_double (of_int n)) = m div c"
    unfolding sd by (simp add: int_of_float_def floor_divide_of_int_eq)
  have "k = (k * c) div c" using c0 by simp
  also have "\<dots> \<le> m div c" using kcm c0 by (intro zdiv_mono1) simp_all
  finally show "isqrt n \<le> int_of_float (sqrt_double (of_int n))" unfolding fl k_def .
  have "m div c \<le> ((k + 1) * c) div c" using mkc c0 by (intro zdiv_mono1) simp_all
  also have "\<dots> = k + 1" using c0 by simp
  finally show "int_of_float (sqrt_double (of_int n)) \<le> isqrt n + 1" unfolding fl k_def .
qed

lemma is_prime_loop_iff:
  "is_prime_loop n i stop \<longleftrightarrow> (\<forall>d. i \<le> d \<and> d < stop \<longrightarrow> n mod d \<noteq> 0)"
proof (induction n i stop rule: is_prime_loop.induct)
  case (1 n i stop)
  show ?case
  proof (cases "i < stop")
    case False
    then have "is_prime_loop n i stop" by (subst is_prime_loop.simps) simp
    moreover have "\<forall>d. i \<le> d \<and> d < stop \<longrightarrow> n mod d \<noteq> 0"
    proof (intro allI impI)
      fix d assume "i \<le> d \<and> d < stop"
      with False have False by linarith
      then show "n mod d \<noteq> 0" by simp
    qed
    ultimately show ?thesis by simp
  next
    case True
    show ?thesis
    proof (cases "n mod i = 0")
      case z: True
      with True have "\<not> is_prime_loop n i stop" by (subst is_prime_loop.simps) simp
      moreover have "\<not> (\<forall>d. i \<le> d \<and> d < stop \<longrightarrow> n mod d \<noteq> 0)"
      proof
        assume "\<forall>d. i \<le> d \<and> d < stop \<longrightarrow> n mod d \<noteq> 0"
        then have "i \<le> i \<and> i < stop \<longrightarrow> n mod i \<noteq> 0" by (rule spec)
        with z True show False by simp
      qed
      ultimately show ?thesis by simp
    next
      case nz: False
      with True have "is_prime_loop n i stop = is_prime_loop n (i + 1) stop"
        by (subst is_prime_loop.simps) simp
      also have "\<dots> \<longleftrightarrow> (\<forall>d. i + 1 \<le> d \<and> d < stop \<longrightarrow> n mod d \<noteq> 0)"
        by (rule "1.IH"[OF True nz])
      also have "\<dots> \<longleftrightarrow> (\<forall>d. i \<le> d \<and> d < stop \<longrightarrow> n mod d \<noteq> 0)"
      proof
        assume a: "\<forall>d. i + 1 \<le> d \<and> d < stop \<longrightarrow> n mod d \<noteq> 0"
        show "\<forall>d. i \<le> d \<and> d < stop \<longrightarrow> n mod d \<noteq> 0"
        proof (intro allI impI)
          fix d assume d: "i \<le> d \<and> d < stop"
          show "n mod d \<noteq> 0"
          proof (cases "d = i")
            case True
            with nz show ?thesis by simp
          next
            case False
            with d have "i + 1 \<le> d \<and> d < stop" by simp
            with spec[OF a, of d] show ?thesis by simp
          qed
        qed
      next
        assume a: "\<forall>d. i \<le> d \<and> d < stop \<longrightarrow> n mod d \<noteq> 0"
        show "\<forall>d. i + 1 \<le> d \<and> d < stop \<longrightarrow> n mod d \<noteq> 0"
        proof (intro allI impI)
          fix d assume "i + 1 \<le> d \<and> d < stop"
          then have "i \<le> d \<and> d < stop" by simp
          with spec[OF a, of d] show "n mod d \<noteq> 0" by simp
        qed
      qed
      finally show ?thesis .
    qed
  qed
qed

lemma composite_has_small_divisor:
  fixes n d :: int
  assumes "1 < d" and "d < n" and "d dvd n"
  shows "\<exists>a. 1 < a \<and> a * a \<le> n \<and> a dvd n"
proof -
  from assms(3) obtain q where q: "n = d * q" by (auto simp: dvd_def)
  have d0: "0 < d" using assms(1) by simp
  have q1: "1 < q"
  proof (rule ccontr)
    assume "\<not> 1 < q"
    then have "q \<le> 1" by simp
    then have "d * q \<le> d * 1" using d0 by (intro mult_left_mono) simp_all
    with q assms(2) show False by simp
  qed
  show ?thesis
  proof (cases "d \<le> q")
    case True
    then have "d * d \<le> d * q" using d0 by (intro mult_left_mono) simp_all
    with assms(1,3) q show ?thesis by auto
  next
    case False
    then have "q * q \<le> d * q" using q1 by (intro mult_right_mono) simp_all
    moreover have "q dvd n" unfolding q by simp
    ultimately show ?thesis using q1 q by auto
  qed
qed

lemma int_sqrt_less:
  assumes "2 \<le> n" and "n < 2 ^ 53"
  shows "int_of_float (sqrt_double (of_int n)) < n"
proof -
  have n1: "1 \<le> n" using assms(1) by simp
  define e where "e = ilog2 (of_int n) div 2"
  have e: "0 \<le> e" "e \<le> 26" using ilog2_of_int_range[OF n1 assms(2)] by (simp_all add: e_def)
  define c :: int where "c = 2 ^ nat (52 - e)"
  have "(2::int) ^ 1 \<le> 2 ^ nat (52 - e)" using e by (intro power_increasing) simp_all
  then have c2: "2 \<le> c" by (simp add: c_def)
  have c0: "0 < c" using c2 by simp
  have u: "(2::rat) powi (e - 52) = 1 / of_int c"
    using e power_int_minus_divide[of "2::rat" "52 - e"] by (simp add: power_int_def c_def)
  have y: "(of_int n :: rat) / (2 powi (e - 52) * 2 powi (e - 52)) = of_int (n * c * c)"
    unfolding u using c0 by simp
  define s where "s = isqrt (n * c * c)"
  define h :: rat where "h = of_int (s * s + s) + 1 / 4"
  define m where "m = (if of_int (n * c * c) < h then s
                        else if h < of_int (n * c * c) then s + 1
                        else if even s then s else s + 1)"
  have n0: "(of_int n :: rat) \<noteq> 0" using assms(1) by simp
  have "sqrt_double (of_int n) = of_int m * 2 powi (e - 52)"
    unfolding sqrt_double_def Let_def e_def[symmetric] y floor_of_int m_def h_def s_def
    using n0 by (simp only: if_False)
  then have sd: "sqrt_double (of_int n) = of_int m / of_int c" unfolding u by simp
  have ms: "s \<le> m" "m \<le> s + 1" by (simp_all add: m_def)
  have ncc0: "0 \<le> n * c * c" using assms(1) c0 by simp
  note sn = isqrt_correct[OF ncc0, folded s_def]
  define A where "A = n * c"
  define B where "B = (n - 1) * c - 2"
  have "1 * 2 \<le> (n - 1) * c" using assms(1) c2 by (intro mult_mono) simp_all
  then have B0: "0 \<le> B" by (simp add: B_def)
  have A0: "0 \<le> A" using assms(1) c0 by (simp add: A_def)
  have "(A - 1) * (A - 1) - n * c * c = A * B + 1"
    by (simp add: A_def B_def algebra_simps)
  moreover have "0 \<le> A * B" using A0 B0 by simp
  ultimately have "n * c * c < (A - 1) * (A - 1)" by linarith
  with sn(2) have "s * s < (A - 1) * (A - 1)" by simp
  moreover have "0 \<le> A - 1"
  proof -
    have "2 * 2 \<le> n * c" using assms(1) c2 by (intro mult_mono) simp_all
    then show ?thesis by (simp add: A_def)
  qed
  ultimately have "s < A - 1" by (rule square_less_imp_less)
  with ms(2) have mlt: "m < n * c" by (simp add: A_def)
  have m0: "0 \<le> m" using ms(1) sn(1) by simp
  have "(0::rat) \<le> of_int m / of_int c" using m0 c0 by simp
  then have fl: "int_of_float (sqrt_double (of_int n)) = m div c"
    unfolding sd by (simp add: int_of_float_def floor_divide_of_int_eq)
  have "m div c < n"
  proof (rule ccontr)
    assume "\<not> m div c < n"
    then have "c * n \<le> c * (m div c)" using c0 by (intro mult_left_mono) simp_all
    moreover have "c * (m div c) \<le> m"
      using mult_div_mod_eq[of c m] pos_mod_sign[OF c0, of m] by linarith
    ultimately show False using mlt by (simp add: mult.commute)
  qed
  then show ?thesis unfolding fl .
qed

lemma is_prime_unfold:
  assumes "2 \<le> n" and "n < 2 ^ 53"
  shows "is_prime n = Inr (is_prime_loop n 2 (int_of_float (sqrt_double (of_int n)) + 1))"
proof -
  have pos: "0 < n" using assms(1) by simp
  have rd: "round_double (of_int n) = of_int n" by (rule round_double_of_int[OF pos assms(2)])
  have "(of_int n :: rat) < of_int (2 ^ 53)" using assms(2) by (simp only: of_int_less_iff)
  then have "\<bar>of_int n :: rat\<bar> < 2 ^ 53" using pos by simp
  moreover have "(2::rat) ^ 53 < 2 ^ 1024" by simp
  ultimately have small: "\<not> 2 ^ 1024 \<le> \<bar>of_int n :: rat\<bar>" by linarith
  have f: "float_of_int n = Inr (of_int n)"
    using small by (simp add: float_of_int_def rd Let_def)
  have sq: "math_sqrt (of_int n) = Inr (sqrt_double (of_int n))"
    using pos by (simp add: math_sqrt_def)
  show ?thesis using assms(1) by (simp add: is_prime_def f sq)
qed

lemma is_prime_below_2_53:
  assumes "n < 2 ^ 53"
  shows "is_prime n = Inr (prime_number n)"
proof (cases "n < 2")
  case True
  then have "\<not> prime_number n" by (simp add: prime_number_def)
  with True show ?thesis by (simp add: is_prime_def)
next
  case False
  then have n2: "2 \<le> n" by simp
  then have n1: "1 \<le> n" and n0: "0 \<le> n" by simp_all
  define U where "U = int_of_float (sqrt_double (of_int n))"
  have kU: "isqrt n \<le> U" unfolding U_def by (rule int_sqrt_bounds(1)[OF n1 assms])
  have Un: "U < n" unfolding U_def by (rule int_sqrt_less[OF n2 assms])
  note kn = isqrt_correct[OF n0]
  have "is_prime_loop n 2 (U + 1) \<longleftrightarrow> prime_number n"
  proof
    assume loop: "is_prime_loop n 2 (U + 1)"
    have "\<not> d dvd n" if d: "1 < d \<and> d < n" for d
    proof
      assume "d dvd n"
      with d composite_has_small_divisor[of d n] obtain a where
        a: "1 < a" "a * a \<le> n" "a dvd n" by blast
      from a(2) kn(3) have "a * a < (isqrt n + 1) * (isqrt n + 1)" by simp
      moreover have "0 \<le> isqrt n + 1" using kn(1) by simp
      ultimately have "a < isqrt n + 1" by (rule square_less_imp_less)
      with kU a(1) have "2 \<le> a \<and> a < U + 1" by simp
      moreover from loop have "\<forall>d. 2 \<le> d \<and> d < U + 1 \<longrightarrow> n mod d \<noteq> 0"
        by (simp only: is_prime_loop_iff)
      then have "2 \<le> a \<and> a < U + 1 \<longrightarrow> n mod a \<noteq> 0" by (rule spec)
      ultimately have "n mod a \<noteq> 0" by simp
      with a(3) show False by (simp add: dvd_eq_mod_eq_0)
    qed
    with n2 show "prime_number n" by (simp add: prime_number_def)
  next
    assume p: "prime_number n"
    have "\<forall>d. 2 \<le> d \<and> d < U + 1 \<longrightarrow> n mod d \<noteq> 0"
    proof (intro allI impI)
      fix d assume "2 \<le> d \<and> d < U + 1"
      with Un have "1 < d \<and> d < n" by simp
      moreover from p have "\<forall>d. 1 < d \<and> d < n \<longrightarrow> \<not> d dvd n"
        by (simp add: prime_number_def)
      then have "1 < d \<and> d < n \<longrightarrow> \<not> d dvd n" by (rule spec)
      ultimately have "\<not> d dvd n" by simp
      then show "n mod d \<noteq> 0" by (simp add: dvd_eq_mod_eq_0)
    qed
    then show "is_prime_loop n 2 (U + 1)" by (simp only: is_prime_loop_iff)
  qed
  then show ?thesis unfolding is_prime_unfold[OF n2 assms] U_def by simp
qed

lemma prime_number_17: "prime_number 17"
proof -
  have "\<not> d dvd 17" if "1 < d \<and> d < 17" for d :: int
  proof -
    from that have "d = 2 \<or> d = 3 \<or> d = 4 \<or> d = 5 \<or> d = 6 \<or> d = 7 \<or> d = 8 \<or> d = 9
      \<or> d = 10 \<or> d = 11 \<or> d = 12 \<or> d = 13 \<or> d = 14 \<or> d = 15 \<or> d = 16" by arith
    then show ?thesis by (elim disjE) simp_all
  qed
  then show ?thesis by (simp add: prime_number_def)
qed

lemma not_prime_number_18: "\<not> prime_number 18"
proof
  assume "prime_number 18"
  then have "\<forall>d. 1 < d \<and> d < 18 \<longrightarrow> \<not> d dvd (18::int)" by (simp add: prime_number_def)
  then have "1 < (2::int) \<and> (2::int) < 18 \<longrightarrow> \<not> 2 dvd (18::int)" by (rule spec)
  then show False by simp
qed

lemma is_prime_17: "is_prime 17 = Inr True"
  using is_prime_below_2_53[of 17] prime_number_17 by simp

lemma is_prime_18: "is_prime 18 = Inr False"
  using is_prime_below_2_53[of 18] not_prime_number_18 by simp

















lemma round_double_ge_powi:
  assumes "2 powi k \<le> x" and "- 1022 \<le> k"
  shows "2 powi k \<le> round_double x"
proof -
  have x: "0 < x" by (rule less_le_trans[OF powi2_pos assms(1)])
  define e where "e = ilog2 x"
  have lo: "2 powi e \<le> x" and hi: "x < 2 powi (e + 1)"
    using ilog2_bounds[OF x] by (simp_all add: e_def)
  have ke: "k \<le> e"
  proof (rule ccontr)
    assume "\<not> k \<le> e"
    then have "(2::rat) powi (e + 1) \<le> 2 powi k" by (intro powi2_le) simp
    with hi assms(1) show False by simp
  qed
  then have e: "- 1022 \<le> e" using assms(2) by simp
  define u :: rat where "u = 2 powi (e - 52)"
  have u0: "0 < u" by (simp add: u_def powi2_pos)
  have rd: "round_double x = of_int (round_half_even (x / u)) * u"
    unfolding u_def by (rule round_double_pos[OF lo hi e])
  define p52 :: int where "p52 = 2 ^ 52"
  have pu: "of_int p52 * u = 2 powi e"
  proof -
    have "(2::rat) powi 52 * 2 powi (e - 52) = 2 powi (52 + (e - 52))"
      by (rule power_int_add[symmetric]) simp
    then show ?thesis by (simp add: u_def p52_def)
  qed
  have "of_int p52 * u \<le> x" using lo by (simp only: pu)
  then have "of_int p52 \<le> x / u" using u0 by (simp only: pos_le_divide_eq)
  then have "of_int p52 - 1 / 2 < x / u" by linarith
  then have "p52 \<le> round_half_even (x / u)" by (rule round_half_even_ge)
  then have "(of_int p52 :: rat) \<le> of_int (round_half_even (x / u))" by (simp only: of_int_le_iff)
  then have "of_int p52 * u \<le> of_int (round_half_even (x / u)) * u"
    using u0 by (intro mult_right_mono) simp_all
  then have "2 powi e \<le> round_double x" by (simp only: pu rd)
  moreover have "(2::rat) powi k \<le> 2 powi e" using ke by (rule powi2_le)
  ultimately show ?thesis by simp
qed

lemma is_prime_overflows_from_2_1024:
  assumes "2 ^ 1024 \<le> n"
  shows "is_prime n = Inl (Exn OverflowError ''int too large to convert to float'')"
proof -
  define B :: rat where "B = 2 ^ 1024"
  have B: "B = 2 powi 1024" by (simp only: B_def power_int_numeral)
  have "(of_int (2 ^ 1024) :: rat) \<le> of_int n" using assms by (simp only: of_int_le_iff)
  then have "B \<le> of_int n" by (simp add: B_def)
  then have "2 powi 1024 \<le> round_double (of_int n)"
    unfolding B by (rule round_double_ge_powi) simp
  then have "B \<le> \<bar>round_double (of_int n)\<bar>" unfolding B by simp
  then have f: "float_of_int n = Inl (Exn OverflowError ''int too large to convert to float'')"
    unfolding float_of_int_def Let_def B_def by (simp only: if_True)
  have "(2::int) \<le> 2 ^ 1024" by simp
  with assms have "\<not> n < 2" by linarith
  then show ?thesis by (simp add: is_prime_def f)
qed





section \<open>The exit status of the runner\<close>

declare fibonacci.simps [simp del]




lemma main_unfold:
  assumes "generated_report w = (Inr rep, s1)"
  shows "fst (main w) = (case fst (save_report rep s1) of
                           Inl e \<Rightarrow> Inl e
                         | Inr u \<Rightarrow> Inr (success_rate rep = 100))"
proof -
  obtain r0 s0 where r: "run_all_tests (new_tester w) = (r0, s0)"
    by (cases "run_all_tests (new_tester w)")
  show ?thesis
  proof (cases r0)
    case (Inl e)
    with assms r show ?thesis by (simp add: generated_report_def then_py_def bind_py_def)
  next
    case (Inr u)
    with assms r have g: "generate_report s0 = (Inr rep, s1)"
      by (simp add: generated_report_def then_py_def bind_py_def)
    obtain r2 s2 where sv: "save_report rep s1 = (r2, s2)" by (cases "save_report rep s1")
    show ?thesis
      by (cases r2) (simp_all add: main_def then_py_def bind_py_def r Inr g sv return_py_def)
  qed
qed


lemma then_py_return: "then_py (return_py x) k = k"
  by (rule ext) (simp add: then_py_def bind_py_def return_py_def)

lemma py_assert_True: "py_assert True msg = return_py ()"
  by (simp add: py_assert_def)

lemma bind_py_lift_Inr: "bind_py (lift_py (Inr v)) f = f v"
  by (rule ext) (simp add: bind_py_def lift_py_def)

lemma try_except_log_test: "try_except (log_test n ok d) h = log_test n ok d"
  by (rule ext) (simp add: try_except_def log_test_run)

lemma fibonacci_10: "fibonacci 10 = 55"
  by (simp add: fibonacci.simps)

lemma test_basic_operations_passes:
  "test_basic_operations
     = log_test ''Basic Operations'' True ''Math, strings, and lists working correctly''"
  by (simp add: test_basic_operations_def basic_operations_body_def Let_def py_assert_True
      then_py_return try_except_log_test)

lemma test_algorithms_passes:
  "test_algorithms
     = log_test ''Algorithms'' True ''Fibonacci, sorting, and prime checking working''"
  by (simp add: test_algorithms_def algorithms_body_def Let_def fibonacci_10 is_prime_17
      is_prime_18 bind_py_lift_Inr py_assert_True then_py_return try_except_log_test)

lemma test_error_handling_passes:
  "test_error_handling
     = log_test ''Error Handling'' True ''All expected errors caught correctly''"
  by (simp add: test_error_handling_def error_handling_body_run try_except_log_test)

lemma test_data_structures_passes:
  assumes "json_dumps (world s) data = Inr txt" and "json_loads (world s) txt = Inr data"
  shows "test_data_structures s
     = log_test ''Data Structures'' True ''Dictionaries, JSON, and sets working correctly'' s"
proof -
  have i: "{1, 2, 3, 4, 5} \<inter> {4, 5, 6, 7, 8} = {4, 5 :: int}" by auto
  have "data_structures_body s
     = log_test ''Data Structures'' True ''Dictionaries, JSON, and sets working correctly'' s"
    using assms
    by (simp add: data_structures_body_def Let_def i py_assert_True then_py_return
        bind_py_def lift_py_def)
  then show ?thesis by (simp add: test_data_structures_def try_except_def log_test_run)
qed

lemma test_file_operations_passes:
  assumes "os_faults (world s) (os_calls (world s)) = None"
    and "os_faults (world s) (Suc (os_calls (world s))) = None"
    and "os_faults (world s) (Suc (Suc (os_calls (world s)))) = None"
    and "os_faults (world s) (Suc (Suc (Suc (os_calls (world s))))) = None"
    and "os_faults (world s) (Suc (Suc (Suc (Suc (os_calls (world s)))))) = None"
  shows "test_file_operations s =
          (Inr (), \<lparr>tester = (tester s)\<lparr>test_results := test_results (tester s)
                       @ [\<lparr>test = ''File Operations'', success = True,
                           details = ''File write/read/delete successful'',
                           timestamp = clock (world s) (clock_reads (world s))\<rparr>]\<rparr>,
                    world = (world s)\<lparr>files := (files (world s))(test_file := None),
                                      os_calls := os_calls (world s) + 5,
                                      clock_reads := clock_reads (world s) + 1\<rparr>\<rparr>)"
  using assms
  by (simp add: test_file_operations_def try_except_def file_operations_body_def write_text_def
      read_text_def os_remove_def then_py_def bind_py_def os_call_def set_file_def get_file_def
      py_assert_def return_py_def log_test_run Let_def)

lemma run_all_tests_passes:
  assumes f: "os_faults w (os_calls w) = None"
    "os_faults w (Suc (os_calls w)) = None"
    "os_faults w (Suc (Suc (os_calls w))) = None"
    "os_faults w (Suc (Suc (Suc (os_calls w)))) = None"
    "os_faults w (Suc (Suc (Suc (Suc (os_calls w))))) = None"
    and j: "json_dumps w data = Inr txt" "json_loads w txt = Inr data"
  shows "fst (run_all_tests (new_tester w)) = Inr ()
   \<and> map success (test_results (tester (snd (run_all_tests (new_tester w)))))
       = [True, True, True, True, True]
   \<and> os_calls (world (snd (run_all_tests (new_tester w)))) = os_calls w + 5
   \<and> os_faults (world (snd (run_all_tests (new_tester w)))) = os_faults w
   \<and> json_dump_report (world (snd (run_all_tests (new_tester w)))) = json_dump_report w"
proof -
  define s0 where "s0 = new_tester w"
  define s1 where "s1 = snd (test_basic_operations s0)"
  define s2 where "s2 = snd (test_file_operations s1)"
  define s3 where "s3 = snd (test_data_structures s2)"
  define s4 where "s4 = snd (test_algorithms s3)"
  define s5 where "s5 = snd (test_error_handling s4)"
  have w0: "world s0 = w\<lparr>clock_reads := clock_reads w + 1\<rparr>"
    and t0: "test_results (tester s0) = []"
    by (simp_all add: s0_def new_tester_def)
  have r1: "test_basic_operations s0 = (Inr (), s1)"
    by (simp add: s1_def test_basic_operations_passes log_test_run)
  have w1: "world s1 = w\<lparr>clock_reads := clock_reads w + 2\<rparr>"
    and t1: "map success (test_results (tester s1)) = [True]"
    by (simp_all add: s1_def test_basic_operations_passes log_test_run w0 t0)
  have f1: "os_faults (world s1) (os_calls (world s1)) = None"
    "os_faults (world s1) (Suc (os_calls (world s1))) = None"
    "os_faults (world s1) (Suc (Suc (os_calls (world s1)))) = None"
    "os_faults (world s1) (Suc (Suc (Suc (os_calls (world s1))))) = None"
    "os_faults (world s1) (Suc (Suc (Suc (Suc (os_calls (world s1)))))) = None"
    using f by (simp_all add: w1)
  note p2 = test_file_operations_passes[OF f1]
  have r2: "test_file_operations s1 = (Inr (), s2)" by (simp add: s2_def p2)
  have w2: "world s2 = w\<lparr>files := (files w)(test_file := None), os_calls := os_calls w + 5,
                           clock_reads := clock_reads w + 3\<rparr>"
    and t2: "map success (test_results (tester s2)) = [True, True]"
    by (simp_all add: s2_def p2 w1 t1)
  have j2: "json_dumps (world s2) data = Inr txt" "json_loads (world s2) txt = Inr data"
    using j by (simp_all add: w2)
  note p3 = test_data_structures_passes[OF j2]
  have r3: "test_data_structures s2 = (Inr (), s3)" by (simp add: s3_def p3 log_test_run)
  have w3: "world s3 = w\<lparr>files := (files w)(test_file := None), os_calls := os_calls w + 5,
                           clock_reads := clock_reads w + 4\<rparr>"
    and t3: "map success (test_results (tester s3)) = [True, True, True]"
    by (simp_all add: s3_def p3 log_test_run w2 t2)
  have r4: "test_algorithms s3 = (Inr (), s4)"
    by (simp add: s4_def test_algorithms_passes log_test_run)
  have w4: "world s4 = w\<lparr>files := (files w)(test_file := None), os_calls := os_calls w + 5,
                           clock_reads := clock_reads w + 5\<rparr>"
    and t4: "map success (test_results (tester s4)) = [True, True, True, True]"
    by (simp_all add: s4_def test_algorithms_passes log_test_run w3 t3)
  have r5: "test_error_handling s4 = (Inr (), s5)"
    by (simp add: s5_def test_error_handling_passes log_test_run)
  have w5: "world s5 = w\<lparr>files := (files w)(test_file := None), os_calls := os_calls w + 5,
                           clock_reads := clock_reads w + 6\<rparr>"
    and t5: "map success (test_results (tester s5)) = [True, True, True, True, True]"
    by (simp_all add: s5_def test_error_handling_passes log_test_run w4 t4)
  have "run_all_tests s0 = (Inr (), s5)"
    by (simp add: run_all_tests_def then_py_def bind_py_def r1 r2 r3 r4 r5)
  then show ?thesis unfolding s0_def[symmetric] using t5 w5 by simp
qed


lemma all_success_counts:
  assumes "map success rs = [True, True, True, True, True]"
  shows "length rs = 5" and "length (filter success rs) = 5"
proof -
  from assms have l: "length (map success rs) = 5" by simp
  then show "length rs = 5" by simp
  from assms have "\<forall>b\<in>set (map success rs). b" by simp
  then have "\<forall>r\<in>set rs. success r" by simp
  then have "filter success rs = rs" by (simp add: filter_True)
  with l show "length (filter success rs) = 5" by simp
qed





lemma exit_status_example_world: "exit_status example_world = 0"
proof -
  define s5 where "s5 = snd (run_all_tests (new_tester example_world))"
  have all: "fst (run_all_tests (new_tester example_world)) = Inr ()
    \<and> map success (test_results (tester s5)) = [True, True, True, True, True]
    \<and> os_calls (world s5) = 5 \<and> os_faults (world s5) = (\<lambda>k. None)
    \<and> json_dump_report (world s5) = (\<lambda>rep. Inr ''{...}'')"
    using run_all_tests_passes[of example_world "''{...}''"]
    unfolding s5_def by (simp add: example_world_def)
  then have r: "run_all_tests (new_tester example_world) = (Inr (), s5)"
    unfolding s5_def by (metis prod.collapse)
  note c = all_success_counts[OF all[THEN conjunct2, THEN conjunct1]]
  have one: "round_double (of_int 1) = of_int 1" by (rule round_double_of_int) simp_all
  have hundred: "round_double (of_int 100) = of_int 100" by (rule round_double_of_int) simp_all
  have "py_truediv 5 5 = Inr (round_double (of_int 5 / of_int 5))"
    by (rule py_truediv_ratio) simp_all
  with one have q: "py_truediv 5 5 = Inr 1" by simp
  have fm: "float_mul 1 100 = 100" using hundred by (simp add: float_mul_def)
  obtain rep s6 where g: "generate_report s5 = (Inr rep, s6)"
    by (simp add: generate_report_run c q)
  have rate: "success_rate rep = 100"
    using g by (auto simp add: generate_report_run c q fm)
  have w6: "os_faults (world s6) = (\<lambda>k. None)"
    "json_dump_report (world s6) = (\<lambda>rep. Inr ''{...}'')"
    using g all by (auto simp add: generate_report_run c q)
  have gen: "generated_report example_world = (Inr rep, s6)"
    by (simp add: generated_report_def then_py_def bind_py_def r g)
  have sv: "fst (save_report rep s6) = Inr ()"
    by (simp add: save_report_def then_py_def bind_py_def os_call_def set_file_def lift_py_def
        Let_def w6)
  show ?thesis unfolding exit_status_def main_unfold[OF gen] sv using rate by simp
qed

end
